theory Spec2Isabelle
  imports Complex_Main "HOL-Library.Word"
begin

section \<open>Data model\<close>

text \<open>
  A frame is the content of \<open>std::vector<int16_t> buffer\<close> after a read: a list of
  signed 16-bit samples.
\<close>

type_synonym int16 = "16 word"
type_synonym frame = "int16 list"

text \<open>
  The level meter \<open>dbfs\<close> of \<open>utils.cpp\<close> computes in \<open>float\<close> and \<open>double\<close>
  with \<open>sqrt\<close> and \<open>log10\<close>. Its rounding is not modelled: the driver loop only compares
  the returned level with the threshold, so the meter is a parameter of the loop, a function
  from the frame to the level it returns. The level is always a finite float (the argument of
  \<open>log10\<close> is positive and finite), hence a real number. The text that the speech engine
  returns from \<open>Transcriber::flush\<close> (the \<open>text\<close> field of the final result of the
  Vosk recogniser, for the waveforms accepted since the last reset) is the second parameter.
\<close>

record env =
  dbfs :: "frame \<Rightarrow> real"
  final_text :: "frame list \<Rightarrow> string"

subsection \<open>Constants of \<open>main\<close>\<close>

definition trigger_dbfs :: real where
  "trigger_dbfs = - 35"

definition trigger_frames :: int where
  "trigger_frames = 10"

definition release_frames :: int where
  "release_frames = 20"

section \<open>The transcriber (\<open>transcriber.cpp\<close>)\<close>

text \<open>
  \<open>Transcriber::Impl\<close> holds the recogniser. \<open>fed\<close> is the recogniser's content:
  the waveforms accepted since the last reset. The build flag \<open>EVA_WITH_VOSK\<close> selects
  the implementation; without it the constructor always throws, so no object of that
  variant (whose \<open>feed\<close> and \<open>flush\<close> do nothing) ever exists.
\<close>

datatype build = WithVosk | WithoutVosk

record Impl =
  ready :: bool
  fed :: "frame list"

text \<open>
  The constructor: \<open>model_ok\<close> says that \<open>vosk_model_new\<close> returned a model,
  \<open>recognizer_ok\<close> that \<open>vosk_recognizer_new\<close> returned a recogniser. \<open>Inl\<close> is the
  \<open>std::runtime_error\<close> thrown, with its message.
\<close>

definition Impl_ctor :: "build \<Rightarrow> bool \<Rightarrow> bool \<Rightarrow> string \<Rightarrow> string + Impl" where
  "Impl_ctor bld model_ok recognizer_ok model_path =
     (case bld of
        WithoutVosk \<Rightarrow> Inl ''Vosk support not enabled; rebuild with EVA_ENABLE_VOSK=ON''
      | WithVosk \<Rightarrow>
          if \<not> model_ok then Inl (''Failed to load Vosk model at '' @ model_path)
          else if \<not> recognizer_ok then Inl ''Failed to create Vosk recognizer''
          else Inr \<lparr>ready = True, fed = []\<rparr>)"

definition Impl_available :: "Impl \<Rightarrow> bool" where
  "Impl_available i = ready i"

definition Impl_feed :: "Impl \<Rightarrow> frame \<Rightarrow> Impl" where
  "Impl_feed i data = (if \<not> ready i then i else i\<lparr>fed := fed i @ [data]\<rparr>)"

definition Impl_flush :: "env \<Rightarrow> Impl \<Rightarrow> string \<times> Impl" where
  "Impl_flush E i =
     (if \<not> ready i then ([], i) else (final_text E (fed i), i\<lparr>fed := []\<rparr>))"

text \<open>\<open>Transcriber\<close> owns the implementation through \<open>std::unique_ptr<Impl> impl_\<close>.\<close>

record Transcriber =
  impl :: "Impl option"

definition Transcriber_ctor :: "build \<Rightarrow> bool \<Rightarrow> bool \<Rightarrow> string \<Rightarrow> string + Transcriber" where
  "Transcriber_ctor bld model_ok recognizer_ok model_path =
     (case Impl_ctor bld model_ok recognizer_ok model_path of
        Inl e \<Rightarrow> Inl e
      | Inr i \<Rightarrow> Inr \<lparr>impl = Some i\<rparr>)"

definition Transcriber_available :: "Transcriber \<Rightarrow> bool" where
  "Transcriber_available t = (case impl t of None \<Rightarrow> False | Some i \<Rightarrow> Impl_available i)"

definition Transcriber_feed :: "Transcriber \<Rightarrow> frame \<Rightarrow> Transcriber" where
  "Transcriber_feed t data =
     (case impl t of None \<Rightarrow> t | Some i \<Rightarrow> t\<lparr>impl := Some (Impl_feed i data)\<rparr>)"

definition Transcriber_flush :: "env \<Rightarrow> Transcriber \<Rightarrow> string \<times> Transcriber" where
  "Transcriber_flush E t =
     (case impl t of
        None \<Rightarrow> ([], t)
      | Some i \<Rightarrow> (let (text, i') = Impl_flush E i in (text, t\<lparr>impl := Some i'\<rparr>)))"

section \<open>The driver loop (\<open>main.cpp\<close>)\<close>

text \<open>
  The lines that the loop prints, and the calls it makes on the transcriber, in order.
  A transcription result is either of the two \<open>[Transcription]\<close> lines.
\<close>

datatype event =
    SpeechDetected real
  | Transcription string
  | NoSpeechRecognised
  | Exiting

datatype sink_call = Feed frame | Flush

fun is_speech_detected :: "event \<Rightarrow> bool" where
  "is_speech_detected (SpeechDetected _) = True"
| "is_speech_detected _ = False"

fun is_transcription_result :: "event \<Rightarrow> bool" where
  "is_transcription_result (Transcription _) = True"
| "is_transcription_result NoSpeechRecognised = True"
| "is_transcription_result _ = False"

text \<open>
  The local variables of \<open>main\<close> that the loop reads and writes. \<open>transcriber\<close> is the
  \<open>std::unique_ptr<Transcriber>\<close>, \<open>None\<close> when null. \<open>calls\<close> and \<open>out\<close> record
  the effects: the calls on the transcriber and the lines printed. The counters are C++
  \<open>int\<close>; they are modelled as unbounded integers, and the bounds proved below show that
  they stay far from overflow.
\<close>

record vad_state =
  hot :: int
  hold :: int
  segment_active :: bool
  segment_has_audio :: bool
  transcription_enabled :: bool
  transcriber :: "Transcriber option"
  calls :: "sink_call list"
  out :: "event list"

text \<open>
  What ends the program other than leaving the loop: an exception that nothing catches
  (\<open>capture.read\<close> is called outside any \<open>try\<close>), or a call through a null
  \<open>transcriber\<close> pointer.
\<close>

datatype failure = UncaughtException string | NullDereference

text \<open>
  Lines 39 to 63 of \<open>main\<close>: the transcriber is constructed inside a \<open>try\<close>; when the
  constructor throws, the pointer stays null and transcription is disabled.
\<close>

definition init_state :: "string + Transcriber \<Rightarrow> vad_state" where
  "init_state ctor =
     (case ctor of
        Inr t \<Rightarrow>
          \<lparr>hot = 0, hold = 0, segment_active = False, segment_has_audio = False,
           transcription_enabled = Transcriber_available t, transcriber = Some t,
           calls = [], out = []\<rparr>
      | Inl e \<Rightarrow>
          \<lparr>hot = 0, hold = 0, segment_active = False, segment_has_audio = False,
           transcription_enabled = False, transcriber = None,
           calls = [], out = []\<rparr>)"

text \<open>Lines 72 to 85: the hysteresis counters.\<close>

definition update_counters :: "real \<Rightarrow> bool \<Rightarrow> vad_state \<Rightarrow> vad_state" where
  "update_counters level speech_like s =
     (let s1 =
        (if speech_like then
           (let s' = s\<lparr>hot := hot s + 1\<rparr> in
            if hot s' \<ge> trigger_frames
            then s'\<lparr>hold := release_frames, hot := 0, out := out s' @ [SpeechDetected level]\<rparr>
            else s')
         else s\<lparr>hot := 0\<rparr>)
      in if hold s1 > 0 then s1\<lparr>hold := hold s1 - 1\<rparr> else s1)"

text \<open>Lines 87 to 91: the frame is fed to the transcriber.\<close>

definition feed_segment :: "bool \<Rightarrow> frame \<Rightarrow> vad_state \<Rightarrow> failure + vad_state" where
  "feed_segment speech_like buffer s =
     (if (speech_like \<or> hold s > 0) \<and> transcription_enabled s then
        (case transcriber s of
           None \<Rightarrow> Inl NullDereference
         | Some t \<Rightarrow>
             Inr (s\<lparr>segment_active := True, segment_has_audio := True,
                    transcriber := Some (Transcriber_feed t buffer),
                    calls := calls s @ [Feed buffer]\<rparr>))
      else Inr s)"

text \<open>Lines 93 to 104: the segment ends and the transcriber is flushed.\<close>

definition close_segment :: "env \<Rightarrow> bool \<Rightarrow> vad_state \<Rightarrow> failure + vad_state" where
  "close_segment E speech_like s =
     (if \<not> speech_like \<and> hold s = 0 \<and> segment_active s then
        (let s1 = s\<lparr>segment_active := False\<rparr> in
         if transcription_enabled s1 \<and> segment_has_audio s1 then
           (case transcriber s1 of
              None \<Rightarrow> Inl NullDereference
            | Some t \<Rightarrow>
                (let (text, t') = Transcriber_flush E t;
                     s2 = s1\<lparr>transcriber := Some t', calls := calls s1 @ [Flush]\<rparr>;
                     s3 = (if text \<noteq> [] then s2\<lparr>out := out s2 @ [Transcription text]\<rparr>
                           else s2\<lparr>out := out s2 @ [NoSpeechRecognised]\<rparr>)
                 in Inr (s3\<lparr>segment_has_audio := False\<rparr>)))
         else Inr (s1\<lparr>segment_has_audio := False\<rparr>))
      else Inr s)"

text \<open>Lines 69 to 104: the body of the loop for a frame that was read.\<close>

definition loop_body :: "env \<Rightarrow> vad_state \<Rightarrow> frame \<Rightarrow> failure + vad_state" where
  "loop_body E s buffer =
     (let level = dbfs E buffer;
          speech_like = (level > trigger_dbfs)
      in case feed_segment speech_like buffer (update_counters level speech_like s) of
           Inl f \<Rightarrow> Inl f
         | Inr s' \<Rightarrow> close_segment E speech_like s')"

text \<open>
  One pass through the loop head is a pair: the value of \<open>g_running\<close> found by the loop
  test (the signal handler clears the flag), and what \<open>capture.read\<close> does when it is
  called. \<open>Returned b\<close> is a read that leaves \<open>b\<close> in the buffer and returns its
  size, as both backends do once capture has started: the value compared with 0 on line 67
  is the length of the frame. \<open>Threw msg\<close> is the \<open>std::runtime_error\<close> that the
  ALSA backend throws when \<open>snd_pcm_readi\<close> fails and cannot be recovered. The buffer is
  overwritten by every read before it is used, so it is an argument of the body, not a
  part of the state.
\<close>

datatype read_outcome = Returned frame | Threw string

type_synonym tick = "bool \<times> read_outcome"

text \<open>
  The loop runs as long as the environment lets it, so a run is described on a finite
  prefix of passes: \<open>Exited\<close> when the loop test fails (\<open>Exiting.\<close> is printed and
  \<open>main\<close> returns), \<open>Aborted\<close> when the program is ended by a failure, \<open>Running\<close> when
  the passes given are used up and the loop is still going. Each carries the state
  reached.
\<close>

datatype outcome =
    Exited vad_state
  | Aborted failure vad_state
  | Running vad_state

fun final :: "outcome \<Rightarrow> vad_state" where
  "final (Exited s) = s"
| "final (Aborted f s) = s"
| "final (Running s) = s"

fun main_loop :: "env \<Rightarrow> vad_state \<Rightarrow> tick list \<Rightarrow> outcome" where
  "main_loop E s [] = Running s"
| "main_loop E s ((g_running, r) # rest) =
     (if \<not> g_running then Exited (s\<lparr>out := out s @ [Exiting]\<rparr>)
      else case r of
             Threw msg \<Rightarrow> Aborted (UncaughtException msg) s
           | Returned buffer \<Rightarrow>
               if length buffer = 0 then main_loop E s rest
               else (case loop_body E s buffer of
                       Inl f \<Rightarrow> Aborted f s
                     | Inr s' \<Rightarrow> main_loop E s' rest))"

text \<open>The passes in which the loop is running and the read returns the given frames.\<close>

definition frames :: "frame list \<Rightarrow> tick list" where
  "frames bs = map (\<lambda>b. (True, Returned b)) bs"


section \<open>Auxiliary definitions\<close>

text \<open>
  The pointer is valid whenever the loop may use it: when transcription is enabled,
  \<open>transcriber\<close> is not null. \<open>init_state\<close> establishes it and the loop keeps it.
\<close>

definition ptr_ok :: "vad_state \<Rightarrow> bool" where
  "ptr_ok s = (transcription_enabled s \<longrightarrow> transcriber s \<noteq> None)"

text \<open>
  An instance of the parameters for the example runs: one frame of a single sample of
  amplitude 3277 (a tenth of full scale, about \<open>-20\<close> dBFS) and one of amplitude 328
  (about \<open>-40\<close> dBFS), a meter that returns these levels, and an engine that always
  recognises the same word. The two initial states are those of a build with Vosk whose
  model loads, and of a build without Vosk, whose constructor throws.
\<close>

definition loud :: frame where
  "loud = [3277]"

definition quiet :: frame where
  "quiet = [328]"

definition sample_env :: env where
  "sample_env = \<lparr>dbfs = (\<lambda>b. if b = loud then - 20 else - 40), final_text = (\<lambda>fs. ''hello'')\<rparr>"

definition enabled_init :: vad_state where
  "enabled_init =
     init_state (Transcriber_ctor WithVosk True True ''models/vosk-model-small-en-us-0.15'')"

definition disabled_init :: vad_state where
  "disabled_init =
     init_state (Transcriber_ctor WithoutVosk True True ''models/vosk-model-small-en-us-0.15'')"

section \<open>Properties of one pass and of a run\<close>

lemmas body_defs = loop_body_def feed_segment_def close_segment_def update_counters_def
  Transcriber_flush_def Transcriber_feed_def Impl_flush_def Impl_feed_def
  trigger_dbfs_def trigger_frames_def release_frames_def

lemma loop_body_enabled:
  "loop_body E s b = Inr s' \<Longrightarrow> transcription_enabled s' = transcription_enabled s"
  by (auto simp: body_defs Let_def split: if_splits option.splits prod.splits)

lemma loop_body_ptr_ok: "loop_body E s b = Inr s' \<Longrightarrow> ptr_ok s \<Longrightarrow> ptr_ok s'"
  by (auto simp: ptr_ok_def body_defs Let_def split: if_splits option.splits prod.splits)

lemma loop_body_total: "ptr_ok s \<Longrightarrow> \<exists>s'. loop_body E s b = Inr s'"
  by (auto simp: ptr_ok_def body_defs Let_def split: if_splits option.splits prod.splits)

lemma init_state_ptr_ok: "ptr_ok (init_state c)"
  by (cases c) (simp_all add: ptr_ok_def init_state_def)

lemma main_loop_frame:
  "b \<noteq> [] \<Longrightarrow> loop_body E s b = Inr s' \<Longrightarrow>
   main_loop E s ((True, Returned b) # ts) = main_loop E s' ts"
  by simp

lemma frames_Cons: "frames (b # bs) = (True, Returned b) # frames bs"
  by (simp add: frames_def)

lemma frames_Nil: "frames [] = []"
  by (simp add: frames_def)

lemma main_loop_append:
  "main_loop E s ts = Running s' \<Longrightarrow> main_loop E s (ts @ us) = main_loop E s' us"
proof (induction ts arbitrary: s)
  case Nil
  then show ?case by simp
next
  case (Cons t ts)
  obtain g r where t: "t = (g, r)" by (cases t)
  from Cons.prems t have g: g by (auto split: if_splits)
  show ?case
  proof (cases r)
    case (Threw m)
    with Cons.prems t g show ?thesis by simp
  next
    case (Returned b)
    show ?thesis
    proof (cases "b = []")
      case True
      with Cons t g Returned show ?thesis by simp
    next
      case False
      with Cons.prems t g Returned obtain s1 where s1: "loop_body E s b = Inr s1"
        by (cases "loop_body E s b") auto
      with Cons.prems t g Returned False have "main_loop E s1 ts = Running s'" by simp
      then have "main_loop E s1 (ts @ us) = main_loop E s' us" by (rule Cons.IH)
      with t g Returned False s1 show ?thesis by simp
    qed
  qed
qed

lemma main_loop_invariant:
  assumes "P s"
    and "\<And>s b s'. P s \<Longrightarrow> b \<noteq> [] \<Longrightarrow> (True, Returned b) \<in> set ts \<Longrightarrow> loop_body E s b = Inr s' \<Longrightarrow> P s'"
    and "\<And>s. P s \<Longrightarrow> P (s\<lparr>out := out s @ [Exiting]\<rparr>)"
  shows "P (final (main_loop E s ts))"
  using assms
proof (induction ts arbitrary: s)
  case Nil
  then show ?case by simp
next
  case (Cons t ts)
  obtain g r where t: "t = (g, r)" by (cases t)
  show ?case
  proof (cases g)
    case False
    then show ?thesis using Cons.prems(1,3) t by simp
  next
    case True
    show ?thesis
    proof (cases r)
      case (Threw m)
      then show ?thesis using True t Cons.prems(1) by simp
    next
      case (Returned b)
      show ?thesis
      proof (cases "b = []")
        case True
        have "P (final (main_loop E s ts))"
          by (rule Cons.IH) (use Cons.prems in auto)
        then show ?thesis using True \<open>g\<close> t Returned by simp
      next
        case nonempty: False
        show ?thesis
        proof (cases "loop_body E s b")
          case (Inl f)
          then show ?thesis using nonempty \<open>g\<close> t Returned Cons.prems(1) by simp
        next
          case (Inr s')
          have "P s'" using Cons.prems(2)[OF Cons.prems(1) nonempty _ Inr] t True Returned by simp
          then have "P (final (main_loop E s' ts))"
            by (rule Cons.IH) (use Cons.prems in auto)
          then show ?thesis using nonempty \<open>g\<close> t Returned Inr by simp
        qed
      qed
    qed
  qed
qed

lemma ptr_ok_no_null: "ptr_ok s \<Longrightarrow> main_loop E s ts \<noteq> Aborted NullDereference s'"
proof (induction ts arbitrary: s)
  case Nil
  then show ?case by simp
next
  case (Cons t ts)
  obtain g r where t: "t = (g, r)" by (cases t)
  show ?case
  proof (cases r)
    case (Threw m)
    with t show ?thesis by simp
  next
    case (Returned b)
    from loop_body_total[OF Cons.prems] obtain s1 where s1: "loop_body E s b = Inr s1" by blast
    have "ptr_ok s1" using s1 Cons.prems by (rule loop_body_ptr_ok)
    then have "main_loop E s1 ts \<noteq> Aborted NullDereference s'" by (rule Cons.IH)
    moreover have "main_loop E s ts \<noteq> Aborted NullDereference s'" using Cons.prems by (rule Cons.IH)
    ultimately show ?thesis using t Returned s1 by simp
  qed
qed

lemma quiet_step:
  assumes "loop_body E s b = Inr s'" "dbfs E b \<le> trigger_dbfs"
  shows "hot s' = 0" 
    and "filter is_speech_detected (out s') = filter is_speech_detected (out s)"
  using assms
  by (auto simp: body_defs Let_def split: if_splits option.splits prod.splits)

lemma quiet_step_segment:
  assumes "loop_body E s b = Inr s'" "dbfs E b \<le> trigger_dbfs" "0 \<le> hold s"
    "segment_active s \<longleftrightarrow> 0 < hold s"
  shows "hold s' = max 0 (hold s - 1)" and "segment_active s' \<longleftrightarrow> 0 < hold s'"
  using assms
  by (auto simp: body_defs Let_def split: if_splits option.splits prod.splits)

lemma loud_step_below:
  assumes "loop_body E s b = Inr s'" "trigger_dbfs < dbfs E b" "hot s + 1 < trigger_frames"
  shows "hot s' = hot s + 1" and "out s' = out s"
  using assms
  by (auto simp: body_defs Let_def split: if_splits option.splits prod.splits)

lemma loud_step_fire:
  assumes "loop_body E s b = Inr s'" "trigger_dbfs < dbfs E b" "trigger_frames \<le> hot s + 1"
  shows "hot s' = 0" and "hold s' = release_frames - 1"
    and "out s' = out s @ [SpeechDetected (dbfs E b)]"
  using assms
  by (auto simp: body_defs Let_def split: if_splits option.splits prod.splits)

lemma fired_step:
  assumes "loop_body E s b = Inr s'" "out s' = out s @ [SpeechDetected level]"
  shows "hold s' = release_frames - 1" and "ptr_ok s'"
  using assms
  by (auto simp: ptr_ok_def body_defs Let_def split: if_splits option.splits prod.splits)

lemma counters_step:
  assumes "loop_body E s b = Inr s'" "0 \<le> hot s" "hot s \<le> trigger_frames - 1"
    "0 \<le> hold s" "hold s \<le> release_frames - 1"
  shows "0 \<le> hot s' \<and> hot s' \<le> trigger_frames - 1 \<and> 0 \<le> hold s' \<and> hold s' \<le> release_frames - 1"
  using assms
  by (auto simp: body_defs Let_def split: if_splits option.splits prod.splits)

lemma disabled_step:
  assumes "loop_body E s b = Inr s'" "\<not> transcription_enabled s"
  shows "calls s' = calls s" 
    and "filter is_transcription_result (out s') = filter is_transcription_result (out s)"
    and "segment_active s' \<longrightarrow> segment_active s"
    and "segment_has_audio s' \<longrightarrow> segment_has_audio s"
    and "transcription_enabled s' = transcription_enabled s"
  using assms
  by (auto simp: body_defs Let_def split: if_splits option.splits prod.splits)

lemma release_run:
  assumes "ptr_ok s" "0 \<le> hold s" "segment_active s \<longleftrightarrow> 0 < hold s"
    "\<forall>q\<in>set qs. q \<noteq> [] \<and> dbfs E q \<le> trigger_dbfs" "k \<le> length qs"
  shows "segment_active (final (main_loop E s (frames (take k qs)))) \<longleftrightarrow> int k < hold s"
  using assms
proof (induction qs arbitrary: s k)
  case Nil
  then show ?case by (simp add: frames_Nil)
next
  case (Cons q qs)
  show ?case
  proof (cases k)
    case 0
    with Cons.prems show ?thesis by (simp add: frames_Nil)
  next
    case (Suc k')
    from Cons.prems have q: "q \<noteq> []" "dbfs E q \<le> trigger_dbfs" by auto
    from loop_body_total[OF Cons.prems(1)] obtain s1 where s1: "loop_body E s q = Inr s1" by blast
    have p1: "ptr_ok s1" using s1 Cons.prems(1) by (rule loop_body_ptr_ok)
    have h1: "hold s1 = max 0 (hold s - 1)" and a1: "segment_active s1 \<longleftrightarrow> 0 < hold s1"
      using quiet_step_segment[OF s1 q(2) Cons.prems(2,3)] by auto
    have "segment_active (final (main_loop E s1 (frames (take k' qs)))) \<longleftrightarrow> int k' < hold s1"
      by (rule Cons.IH[OF p1 _ a1]) (use h1 Cons.prems Suc in auto)
    moreover have "main_loop E s (frames (take k (q # qs))) = main_loop E s1 (frames (take k' qs))"
      using Suc q s1 by (simp add: frames_Cons)
    ultimately show ?thesis using h1 Suc Cons.prems(2) by auto
  qed
qed

lemma loud_run:
  assumes "ptr_ok s" "\<forall>b\<in>set bs. b \<noteq> [] \<and> trigger_dbfs < dbfs E b"
    "hot s + int (length bs) < trigger_frames"
  shows "\<exists>s'. main_loop E s (frames bs) = Running s' \<and> hot s' = hot s + int (length bs)
           \<and> out s' = out s \<and> ptr_ok s'"
  using assms
proof (induction bs arbitrary: s)
  case Nil
  then show ?case by (simp add: frames_Nil)
next
  case (Cons b bs)
  from Cons.prems have b: "b \<noteq> []" "trigger_dbfs < dbfs E b" by auto
  from loop_body_total[OF Cons.prems(1)] obtain s1 where s1: "loop_body E s b = Inr s1" by blast
  have p1: "ptr_ok s1" using s1 Cons.prems(1) by (rule loop_body_ptr_ok)
  have below: "hot s + 1 < trigger_frames" using Cons.prems(3) by simp
  have h1: "hot s1 = hot s + 1" and o1: "out s1 = out s"
    using loud_step_below[OF s1 b(2) below] by auto
  have "\<exists>s'. main_loop E s1 (frames bs) = Running s' \<and> hot s' = hot s1 + int (length bs)
           \<and> out s' = out s1 \<and> ptr_ok s'"
    by (rule Cons.IH[OF p1]) (use Cons.prems h1 in auto)
  then show ?case using b s1 h1 o1 by (auto simp: frames_Cons)
qed


section \<open>The claims\<close>

subsection \<open>C1: the release window\<close>

text \<open>
  C1, as stated: after a \<open>SpeechDetected\<close> event the segment stays active for 20 further
  frames at or below the threshold and goes idle on the 20th. The run below has the event
  on its 10th loud frame; the segment is still active after 18 quiet frames and already
  idle after the 19th, so the claim fails by one frame.
\<close>

theorem C1_idle_on_19th_counterexample:
  "out (final (main_loop sample_env enabled_init (frames (replicate 10 loud))))
     = [SpeechDetected (- 20)]
   \<and> quiet \<noteq> [] \<and> dbfs sample_env quiet \<le> trigger_dbfs
   \<and> segment_active (final (main_loop sample_env enabled_init
         (frames (replicate 10 loud @ replicate 18 quiet))))
   \<and> \<not> segment_active (final (main_loop sample_env enabled_init
         (frames (replicate 10 loud @ replicate 19 quiet))))"
  by code_simp

text \<open>
  C1, amended: let a pass of the loop emit \<open>SpeechDetected\<close> and leave the segment
  active. If the frames read after it are all non-empty with a level at or below the
  threshold, then after \<open>k\<close> of them the segment is active exactly when
  \<open>k < release_frames - 1\<close>: it stays active for 18 such frames and goes idle on the
  19th, because the pass that sets \<open>hold\<close> to 20 also decrements it.
\<close>

theorem C1_release_window:
  assumes "loop_body E s b = Inr s1"
    and "out s1 = out s @ [SpeechDetected (dbfs E b)]"
    and "segment_active s1"
    and "\<forall>q\<in>set qs. q \<noteq> [] \<and> dbfs E q \<le> trigger_dbfs"
    and "k \<le> length qs"
  shows "segment_active (final (main_loop E s1 (frames (take k qs))))
           \<longleftrightarrow> int k < release_frames - 1"
proof -
  have h: "hold s1 = release_frames - 1" and p: "ptr_ok s1"
    using fired_step[OF assms(1,2)] by auto
  have "segment_active (final (main_loop E s1 (frames (take k qs)))) \<longleftrightarrow> int k < hold s1"
    by (rule release_run[OF p _ _ assms(4,5)])
      (use h assms(3) in \<open>auto simp: release_frames_def\<close>)
  with h show ?thesis by simp
qed

theorem C1_release_window_witness:
  "loop_body sample_env (final (main_loop sample_env enabled_init (frames (replicate 9 loud)))) loud
     = Inr (final (main_loop sample_env enabled_init (frames (replicate 10 loud))))
   \<and> out (final (main_loop sample_env enabled_init (frames (replicate 10 loud))))
     = out (final (main_loop sample_env enabled_init (frames (replicate 9 loud))))
         @ [SpeechDetected (dbfs sample_env loud)]
   \<and> segment_active (final (main_loop sample_env enabled_init (frames (replicate 10 loud))))
   \<and> quiet \<noteq> [] \<and> dbfs sample_env quiet \<le> trigger_dbfs
   \<and> 19 \<le> length (replicate 25 quiet)
   \<and> (segment_active (final (main_loop sample_env
          (final (main_loop sample_env enabled_init (frames (replicate 10 loud))))
          (frames (take 19 (replicate 25 quiet)))))
      \<longleftrightarrow> int 19 < release_frames - 1)"
proof -
  have h1: "loop_body sample_env
              (final (main_loop sample_env enabled_init (frames (replicate 9 loud)))) loud
     = Inr (final (main_loop sample_env enabled_init (frames (replicate 10 loud))))"
    by code_simp
  have h2: "out (final (main_loop sample_env enabled_init (frames (replicate 10 loud))))
     = out (final (main_loop sample_env enabled_init (frames (replicate 9 loud))))
         @ [SpeechDetected (dbfs sample_env loud)]"
    by code_simp
  have h3: "segment_active (final (main_loop sample_env enabled_init (frames (replicate 10 loud))))"
    by code_simp
  have h4: "\<forall>q\<in>set (replicate 25 quiet). q \<noteq> [] \<and> dbfs sample_env q \<le> trigger_dbfs"
    by (simp add: quiet_def loud_def sample_env_def trigger_dbfs_def)
  have h5: "19 \<le> length (replicate 25 quiet)" by simp
  have h6: "quiet \<noteq> [] \<and> dbfs sample_env quiet \<le> trigger_dbfs"
    by (simp add: quiet_def loud_def sample_env_def trigger_dbfs_def)
  show ?thesis using h1 h2 h3 h5 h6 C1_release_window[OF h1 h2 h3 h4 h5] by simp
qed

subsection \<open>C2: the trigger\<close>

text \<open>
  C2, as stated: after the 10th consecutive frame above the threshold has been
  processed, \<open>hold\<close> equals \<open>release_frames\<close>. In the run below the event fires on
  the 10th frame, and \<open>hold\<close> is 19 once that frame is processed, not 20.
\<close>

theorem C2_hold_is_19_counterexample:
  "hot enabled_init = 0
   \<and> loud \<noteq> [] \<and> trigger_dbfs < dbfs sample_env loud
   \<and> out (final (main_loop sample_env enabled_init (frames (replicate 10 loud))))
       = [SpeechDetected (- 20)]
   \<and> hold (final (main_loop sample_env enabled_init (frames (replicate 10 loud)))) = 19
   \<and> hold (final (main_loop sample_env enabled_init (frames (replicate 10 loud)))) \<noteq> release_frames"
  by code_simp

text \<open>
  C2, amended: starting with \<open>hot = 0\<close> (and a valid transcriber pointer when
  transcription is enabled), given exactly \<open>trigger_frames\<close> (10) consecutive non-empty
  frames with a level strictly above the threshold, no line is printed during the first
  nine, \<open>SpeechDetected\<close> with the level of the 10th frame is printed on the 10th,
  and after that frame \<open>hot\<close> is 0 and \<open>hold\<close> is \<open>release_frames - 1\<close> (19):
  the frame that sets \<open>hold\<close> to 20 decrements it.
\<close>

theorem C2_trigger_on_tenth:
  assumes "hot s = 0"
    and "transcription_enabled s \<longrightarrow> transcriber s \<noteq> None"
    and "int (length bs) = trigger_frames"
    and "\<forall>b\<in>set bs. b \<noteq> [] \<and> trigger_dbfs < dbfs E b"
  shows "(\<exists>s'. main_loop E s (frames bs) = Running s'
            \<and> out s' = out s @ [SpeechDetected (dbfs E (last bs))]
            \<and> hot s' = 0 \<and> hold s' = release_frames - 1)
         \<and> (\<forall>k<length bs. out (final (main_loop E s (frames (take k bs)))) = out s)"
proof -
  have p: "ptr_ok s" using assms(2) by (simp add: ptr_ok_def)
  have loud_prefix: "\<exists>s'. main_loop E s (frames (take k bs)) = Running s'
        \<and> hot s' = int k \<and> out s' = out s \<and> ptr_ok s'" if "k < length bs" for k
  proof -
    have "\<forall>b\<in>set (take k bs). b \<noteq> [] \<and> trigger_dbfs < dbfs E b"
      using assms(4) by (auto dest: in_set_takeD)
    moreover have "hot s + int (length (take k bs)) < trigger_frames"
      using that assms(1,3) by simp
    ultimately have "\<exists>s'. main_loop E s (frames (take k bs)) = Running s'
        \<and> hot s' = hot s + int (length (take k bs)) \<and> out s' = out s \<and> ptr_ok s'"
      by (rule loud_run[OF p])
    then show ?thesis using that assms(1) by auto
  qed
  have ne: "bs \<noteq> []" using assms(3) by (auto simp: trigger_frames_def)
  then have split: "bs = butlast bs @ [last bs]" by simp
  have len: "length bs - 1 < length bs" using ne by (cases bs) auto
  from loud_prefix[OF len] obtain s9 where s9: "main_loop E s (frames (butlast bs)) = Running s9"
    "hot s9 = int (length bs - 1)" "out s9 = out s" "ptr_ok s9"
    by (auto simp: butlast_conv_take)
  have l: "last bs \<noteq> []" "trigger_dbfs < dbfs E (last bs)" using assms(4) ne by auto
  from loop_body_total[OF s9(4)] obtain s10 where s10: "loop_body E s9 (last bs) = Inr s10" by blast
  have fire: "trigger_frames \<le> hot s9 + 1" using s9(2) assms(3) ne by (cases bs) auto
  note f = loud_step_fire[OF s10 l(2) fire]
  have "frames bs = frames (butlast bs) @ [(True, Returned (last bs))]"
    using split by (metis frames_def map_append list.simps(8,9))
  then have "main_loop E s (frames bs) = main_loop E s9 [(True, Returned (last bs))]"
    using main_loop_append[OF s9(1)] by simp
  also have "\<dots> = Running s10" using l(1) s10 by simp
  finally have "main_loop E s (frames bs) = Running s10" .
  with f s9(3) have "\<exists>s'. main_loop E s (frames bs) = Running s'
            \<and> out s' = out s @ [SpeechDetected (dbfs E (last bs))]
            \<and> hot s' = 0 \<and> hold s' = release_frames - 1" by simp
  moreover have "\<forall>k<length bs. out (final (main_loop E s (frames (take k bs)))) = out s"
    using loud_prefix by fastforce
  ultimately show ?thesis by blast
qed

theorem C2_trigger_on_tenth_witness:
  "hot enabled_init = 0
   \<and> transcriber enabled_init \<noteq> None
   \<and> int (length (replicate 10 loud)) = trigger_frames
   \<and> loud \<noteq> [] \<and> trigger_dbfs < dbfs sample_env loud
   \<and> (\<exists>s'. main_loop sample_env enabled_init (frames (replicate 10 loud)) = Running s'
            \<and> out s' = out enabled_init @ [SpeechDetected (dbfs sample_env (last (replicate 10 loud)))]
            \<and> hot s' = 0 \<and> hold s' = release_frames - 1)
   \<and> out (final (main_loop sample_env enabled_init (frames (take 9 (replicate 10 loud)))))
       = out enabled_init"
proof -
  have h1: "hot enabled_init = 0" by code_simp
  have h2: "transcription_enabled enabled_init \<longrightarrow> transcriber enabled_init \<noteq> None" by code_simp
  have h3: "int (length (replicate 10 loud)) = trigger_frames" by (simp add: trigger_frames_def)
  have h4: "\<forall>b\<in>set (replicate 10 loud). b \<noteq> [] \<and> trigger_dbfs < dbfs sample_env b"
    by (simp add: loud_def sample_env_def trigger_dbfs_def)
  have h5: "transcriber enabled_init \<noteq> None" by code_simp
  have h6: "loud \<noteq> [] \<and> trigger_dbfs < dbfs sample_env loud"
    by (simp add: loud_def sample_env_def trigger_dbfs_def)
  have h7: "9 < length (replicate 10 loud)" by simp
  show ?thesis using h1 h3 h5 h6 h7 C2_trigger_on_tenth[OF h1 h2 h3 h4] by blast
qed

subsection \<open>C3: the sink disabled\<close>

text \<open>
  C3, as stated: with the sink disabled the segment still becomes active on a
  speech-like frame or while \<open>hold\<close> is positive. In the run below transcription is
  disabled, the last frame is speech-like and \<open>hold\<close> is positive after it, and the
  segment is neither active nor marked as having audio.
\<close>

theorem C3_disabled_never_active_counterexample:
  "\<not> transcription_enabled disabled_init
   \<and> loud \<noteq> [] \<and> trigger_dbfs < dbfs sample_env loud
   \<and> 0 < hold (final (main_loop sample_env disabled_init (frames (replicate 10 loud))))
   \<and> \<not> segment_active (final (main_loop sample_env disabled_init (frames (replicate 10 loud))))
   \<and> \<not> segment_has_audio (final (main_loop sample_env disabled_init (frames (replicate 10 loud))))"
  by code_simp

text \<open>
  C3, amended: when the sink is disabled, the loop never sets \<open>segment_active\<close> or
  \<open>segment_has_audio\<close> (each is true after a run only if it was true before), makes no
  feed or flush call, and prints no transcription result.
\<close>

theorem C3_disabled_sink:
  assumes "\<not> transcription_enabled s"
  shows "calls (final (main_loop E s ts)) = calls s
         \<and> filter is_transcription_result (out (final (main_loop E s ts)))
             = filter is_transcription_result (out s)
         \<and> (segment_active (final (main_loop E s ts)) \<longrightarrow> segment_active s)
         \<and> (segment_has_audio (final (main_loop E s ts)) \<longrightarrow> segment_has_audio s)"
proof -
  let ?P = "\<lambda>s'. \<not> transcription_enabled s' \<and> calls s' = calls s
         \<and> filter is_transcription_result (out s') = filter is_transcription_result (out s)
         \<and> (segment_active s' \<longrightarrow> segment_active s)
         \<and> (segment_has_audio s' \<longrightarrow> segment_has_audio s)"
  have "?P (final (main_loop E s ts))"
  proof (rule main_loop_invariant[where P = ?P])
    show "?P s" using assms by simp
  next
    fix u b u'
    assume u: "?P u" and body: "loop_body E u b = Inr u'"
    from u have d: "\<not> transcription_enabled u" by simp
    show "?P u'" using disabled_step[OF body d] u by simp
  next
    fix u assume "?P u"
    then show "?P (u\<lparr>out := out u @ [Exiting]\<rparr>)" by simp
  qed
  then show ?thesis by simp
qed

theorem C3_disabled_sink_witness:
  "\<not> transcription_enabled disabled_init
   \<and> calls (final (main_loop sample_env disabled_init
        (frames (replicate 10 loud @ replicate 20 quiet)))) = calls disabled_init
   \<and> filter is_transcription_result (out (final (main_loop sample_env disabled_init
        (frames (replicate 10 loud @ replicate 20 quiet)))))
       = filter is_transcription_result (out disabled_init)
   \<and> \<not> segment_active disabled_init \<and> \<not> segment_has_audio disabled_init
   \<and> \<not> segment_active (final (main_loop sample_env disabled_init
        (frames (replicate 10 loud @ replicate 20 quiet))))
   \<and> \<not> segment_has_audio (final (main_loop sample_env disabled_init
        (frames (replicate 10 loud @ replicate 20 quiet))))"
proof -
  have h: "\<not> transcription_enabled disabled_init" by code_simp
  have a: "\<not> segment_active disabled_init" by code_simp
  have b: "\<not> segment_has_audio disabled_init" by code_simp
  show ?thesis
    using h a b C3_disabled_sink[OF h, of sample_env "frames (replicate 10 loud @ replicate 20 quiet)"]
    by blast
qed

subsection \<open>C4: a failing read\<close>

text \<open>
  C4, as stated: a failing read is caught and the loop goes on with the next frame.
  In the run below the first read throws; the program ends there with the exception, and
  the frame that would have been read next is never processed.
\<close>

theorem C4_read_failure_ends_session_counterexample:
  "main_loop sample_env enabled_init
     [(True, Threw ''snd_pcm_readi: Input/output error''), (True, Returned loud)]
     = Aborted (UncaughtException ''snd_pcm_readi: Input/output error'') enabled_init
   \<and> main_loop sample_env enabled_init
     [(True, Threw ''snd_pcm_readi: Input/output error''), (True, Returned loud)]
     \<noteq> main_loop sample_env enabled_init [(True, Returned loud)]"
  by code_simp

text \<open>
  C4, amended: an exception thrown by a read is not caught in the loop: whatever passes
  would follow, the run ends at the failing read with that exception, in the state reached
  before it, so \<open>hot\<close>, \<open>hold\<close> and the segment state are as the last processed
  frame left them. The loop has no failure path for a feed call, which returns nothing:
  with a valid transcriber pointer, the body completes for every frame read and the loop
  goes on with the next pass.
\<close>

theorem C4_read_failure_not_caught:
  assumes "main_loop E s ts = Running s1"
  shows "main_loop E s (ts @ (True, Threw msg) # rest) = Aborted (UncaughtException msg) s1
         \<and> ((transcription_enabled s1 \<longrightarrow> transcriber s1 \<noteq> None) \<longrightarrow> b \<noteq> [] \<longrightarrow>
              (\<exists>s2. loop_body E s1 b = Inr s2
                 \<and> main_loop E s (ts @ (True, Returned b) # rest) = main_loop E s2 rest))"
proof -
  have "main_loop E s (ts @ (True, Threw msg) # rest) = main_loop E s1 ((True, Threw msg) # rest)"
    using assms by (rule main_loop_append)
  then have abort: "main_loop E s (ts @ (True, Threw msg) # rest) = Aborted (UncaughtException msg) s1"
    by simp
  have "\<exists>s2. loop_body E s1 b = Inr s2
           \<and> main_loop E s (ts @ (True, Returned b) # rest) = main_loop E s2 rest"
    if "transcription_enabled s1 \<longrightarrow> transcriber s1 \<noteq> None" "b \<noteq> []"
  proof -
    from that(1) have "ptr_ok s1" by (simp add: ptr_ok_def)
    from loop_body_total[OF this] obtain s2 where s2: "loop_body E s1 b = Inr s2" by blast
    have "main_loop E s (ts @ (True, Returned b) # rest) = main_loop E s1 ((True, Returned b) # rest)"
      using assms by (rule main_loop_append)
    with s2 that(2) show ?thesis by simp
  qed
  with abort show ?thesis by simp
qed

theorem C4_read_failure_not_caught_witness:
  "main_loop sample_env enabled_init (frames (replicate 9 loud))
     = Running (final (main_loop sample_env enabled_init (frames (replicate 9 loud))))
   \<and> hot (final (main_loop sample_env enabled_init (frames (replicate 9 loud)))) = 9
   \<and> main_loop sample_env enabled_init
        (frames (replicate 9 loud) @ (True, Threw ''snd_pcm_readi'') # [(True, Returned loud)])
      = Aborted (UncaughtException ''snd_pcm_readi'')
          (final (main_loop sample_env enabled_init (frames (replicate 9 loud))))
   \<and> transcriber (final (main_loop sample_env enabled_init (frames (replicate 9 loud)))) \<noteq> None
   \<and> loud \<noteq> []
   \<and> (\<exists>s2. loop_body sample_env
               (final (main_loop sample_env enabled_init (frames (replicate 9 loud)))) loud = Inr s2
         \<and> main_loop sample_env enabled_init
              (frames (replicate 9 loud) @ (True, Returned loud) # [(True, Returned loud)])
             = main_loop sample_env s2 [(True, Returned loud)])"
proof -
  have h: "main_loop sample_env enabled_init (frames (replicate 9 loud))
     = Running (final (main_loop sample_env enabled_init (frames (replicate 9 loud))))"
    by code_simp
  have c: "hot (final (main_loop sample_env enabled_init (frames (replicate 9 loud)))) = 9"
    by code_simp
  have p: "transcription_enabled (final (main_loop sample_env enabled_init (frames (replicate 9 loud))))
        \<longrightarrow> transcriber (final (main_loop sample_env enabled_init (frames (replicate 9 loud)))) \<noteq> None"
    by code_simp
  have l: "loud \<noteq> []" by code_simp
  have q: "transcriber (final (main_loop sample_env enabled_init (frames (replicate 9 loud)))) \<noteq> None"
    by code_simp
  show ?thesis
    using h c p q l C4_read_failure_not_caught[OF h, of "''snd_pcm_readi''" "[(True, Returned loud)]" loud]
    by blast
qed

subsection \<open>C6: a quiet run\<close>

text \<open>
  C6: if \<open>hot\<close> is 0 at the start, as in the initial state, and every non-empty frame
  read has a level at or below the threshold, then after every prefix of the run \<open>hot\<close>
  is 0 and no \<open>SpeechDetected\<close> line has been printed.
\<close>

theorem C6_quiet_run_keeps_hot_zero:
  assumes "hot s = 0"
    and "\<forall>b. (True, Returned b) \<in> set ts \<and> b \<noteq> [] \<longrightarrow> dbfs E b \<le> trigger_dbfs"
  shows "hot (final (main_loop E s (take n ts))) = 0
         \<and> filter is_speech_detected (out (final (main_loop E s (take n ts))))
             = filter is_speech_detected (out s)"
proof -
  let ?P = "\<lambda>s'. hot s' = 0
         \<and> filter is_speech_detected (out s') = filter is_speech_detected (out s)"
  show ?thesis
  proof (rule main_loop_invariant[where P = ?P])
    show "?P s" using assms(1) by simp
  next
    fix u b u'
    assume u: "?P u" and b: "b \<noteq> []" "(True, Returned b) \<in> set (take n ts)"
      and body: "loop_body E u b = Inr u'"
    from b(2) have "(True, Returned b) \<in> set ts" by (rule in_set_takeD)
    with assms(2) b(1) have "dbfs E b \<le> trigger_dbfs" by blast
    from quiet_step[OF body this] u show "?P u'" by simp
  next
    fix u assume "?P u"
    then show "?P (u\<lparr>out := out u @ [Exiting]\<rparr>)" by simp
  qed
qed

theorem C6_quiet_run_keeps_hot_zero_witness:
  "hot enabled_init = 0
   \<and> dbfs sample_env quiet \<le> trigger_dbfs
   \<and> hot (final (main_loop sample_env enabled_init (take 3 (frames [quiet, [], quiet, quiet])))) = 0
   \<and> filter is_speech_detected
        (out (final (main_loop sample_env enabled_init (take 3 (frames [quiet, [], quiet, quiet])))))
       = filter is_speech_detected (out enabled_init)"
proof -
  have h1: "hot enabled_init = 0" by code_simp
  have h2: "\<forall>b. (True, Returned b) \<in> set (frames [quiet, [], quiet, quiet]) \<and> b \<noteq> []
          \<longrightarrow> dbfs sample_env b \<le> trigger_dbfs"
    by (auto simp: frames_def quiet_def loud_def sample_env_def trigger_dbfs_def)
  have h3: "dbfs sample_env quiet \<le> trigger_dbfs"
    by (simp add: quiet_def loud_def sample_env_def trigger_dbfs_def)
  show ?thesis using h1 h3 C6_quiet_run_keeps_hot_zero[OF h1 h2, of 3] by simp
qed

subsection \<open>C7: empty frames\<close>

text \<open>
  C7: a pass whose read returns a frame of length zero leaves the whole state as it was:
  counters, segment state, transcriber, calls and printed lines. Such passes are skipped
  entirely: removing them from a run does not change its outcome.
\<close>

theorem C7_empty_frame_skipped:
  "main_loop E s [(True, Returned [])] = Running s
   \<and> main_loop E s ((True, Returned []) # ts) = main_loop E s ts
   \<and> main_loop E s (filter (\<lambda>t. t \<noteq> (True, Returned [])) ts) = main_loop E s ts"
proof -
  have "main_loop E s (filter (\<lambda>t. t \<noteq> (True, Returned [])) ts) = main_loop E s ts"
  proof (induction ts arbitrary: s)
    case Nil
    show ?case by simp
  next
    case (Cons t ts)
    obtain g r where t: "t = (g, r)" by (cases t)
    show ?case
    proof (cases "t = (True, Returned [])")
      case True
      then show ?thesis using Cons.IH by simp
    next
      case False
      then show ?thesis using t Cons.IH
        by (auto split: read_outcome.splits sum.splits)
    qed
  qed
  then show ?thesis by simp
qed

subsection \<open>C8: shutdown\<close>

text \<open>
  C8: when the loop test finds \<open>g_running\<close> false after a run that reached the state
  \<open>s1\<close>, the loop exits; only \<open>Exiting.\<close> is printed, no call is made on the
  transcriber, no transcription result is printed, and the segment state is left as it
  was, active or not.
\<close>

theorem C8_shutdown_without_flush:
  assumes "main_loop E s ts = Running s1"
  shows "main_loop E s (ts @ (False, r) # rest) = Exited (s1\<lparr>out := out s1 @ [Exiting]\<rparr>)
         \<and> calls (final (main_loop E s (ts @ (False, r) # rest))) = calls s1
         \<and> filter is_transcription_result (out (final (main_loop E s (ts @ (False, r) # rest))))
             = filter is_transcription_result (out s1)
         \<and> transcriber (final (main_loop E s (ts @ (False, r) # rest))) = transcriber s1
         \<and> segment_active (final (main_loop E s (ts @ (False, r) # rest))) = segment_active s1"
proof -
  have "main_loop E s (ts @ (False, r) # rest) = main_loop E s1 ((False, r) # rest)"
    using assms by (rule main_loop_append)
  then have "main_loop E s (ts @ (False, r) # rest) = Exited (s1\<lparr>out := out s1 @ [Exiting]\<rparr>)"
    by simp
  then show ?thesis by simp
qed

theorem C8_shutdown_without_flush_witness:
  "main_loop sample_env enabled_init (frames (replicate 10 loud))
     = Running (final (main_loop sample_env enabled_init (frames (replicate 10 loud))))
   \<and> segment_active (final (main_loop sample_env enabled_init (frames (replicate 10 loud))))
   \<and> segment_has_audio (final (main_loop sample_env enabled_init (frames (replicate 10 loud))))
   \<and> Flush \<notin> set (calls (final (main_loop sample_env enabled_init
         (frames (replicate 10 loud) @ (False, Returned []) # []))))
   \<and> filter is_transcription_result (out (final (main_loop sample_env enabled_init
         (frames (replicate 10 loud) @ (False, Returned []) # [])))) = []"
proof -
  have h: "main_loop sample_env enabled_init (frames (replicate 10 loud))
     = Running (final (main_loop sample_env enabled_init (frames (replicate 10 loud))))"
    by code_simp
  have a: "segment_active (final (main_loop sample_env enabled_init (frames (replicate 10 loud))))"
    by code_simp
  have b: "segment_has_audio (final (main_loop sample_env enabled_init (frames (replicate 10 loud))))"
    by code_simp
  have c: "Flush \<notin> set (calls (final (main_loop sample_env enabled_init (frames (replicate 10 loud)))))"
    by code_simp
  have d: "filter is_transcription_result
      (out (final (main_loop sample_env enabled_init (frames (replicate 10 loud))))) = []"
    by code_simp
  show ?thesis
    using h a b c d C8_shutdown_without_flush[OF h, of "Returned []" "[]"] by simp
qed

subsection \<open>C9: bounds of the counters\<close>

text \<open>
  C9: after every prefix of every run from the initial state, \<open>hot\<close> is between 0 and
  \<open>trigger_frames - 1\<close> (9) and \<open>hold\<close> between 0 and \<open>release_frames - 1\<close> (19);
  in particular \<open>hold\<close> is never \<open>release_frames\<close> between two passes.
\<close>

theorem C9_counter_bounds:
  "0 \<le> hot (final (main_loop E (init_state c) ts))
   \<and> hot (final (main_loop E (init_state c) ts)) \<le> trigger_frames - 1
   \<and> 0 \<le> hold (final (main_loop E (init_state c) ts))
   \<and> hold (final (main_loop E (init_state c) ts)) \<le> release_frames - 1
   \<and> hold (final (main_loop E (init_state c) ts)) \<noteq> release_frames"
proof -
  let ?P = "\<lambda>s. 0 \<le> hot s \<and> hot s \<le> trigger_frames - 1 \<and> 0 \<le> hold s \<and> hold s \<le> release_frames - 1"
  have "?P (final (main_loop E (init_state c) ts))"
  proof (rule main_loop_invariant[where P = ?P])
    show "?P (init_state c)"
      by (cases c) (simp_all add: init_state_def trigger_frames_def release_frames_def)
  next
    fix u b u'
    assume "?P u" and "loop_body E u b = Inr u'"
    then show "?P u'" using counters_step[of E u b u'] by simp
  next
    fix u assume "?P u"
    then show "?P (u\<lparr>out := out u @ [Exiting]\<rparr>)" by simp
  qed
  then show ?thesis by simp
qed

subsection \<open>C10: no call through a null pointer\<close>

text \<open>
  C10: whenever \<open>transcription_enabled\<close> is false, a run makes no feed or flush call
  and never ends in a call through a null pointer. The case of the constructor that threw,
  where \<open>transcriber\<close> is null, is the example that follows the theorem.
\<close>

theorem C10_disabled_never_calls:
  assumes "\<not> transcription_enabled s"
  shows "calls (final (main_loop E s ts)) = calls s
         \<and> (\<forall>s'. main_loop E s ts \<noteq> Aborted NullDereference s')"
proof -
  have "ptr_ok s" using assms by (simp add: ptr_ok_def)
  then have "\<forall>s'. main_loop E s ts \<noteq> Aborted NullDereference s'"
    by (simp add: ptr_ok_no_null)
  moreover have "calls (final (main_loop E s ts)) = calls s"
  proof -
    let ?P = "\<lambda>s'. \<not> transcription_enabled s' \<and> calls s' = calls s"
    have "?P (final (main_loop E s ts))"
    proof (rule main_loop_invariant[where P = ?P])
      show "?P s" using assms by simp
    next
      fix u b u'
      assume u: "?P u" and body: "loop_body E u b = Inr u'"
      from u have d: "\<not> transcription_enabled u" by simp
      show "?P u'" using disabled_step(1,5)[OF body d] u by simp
    next
      fix u assume "?P u"
      then show "?P (u\<lparr>out := out u @ [Exiting]\<rparr>)" by simp
    qed
    then show ?thesis by simp
  qed
  ultimately show ?thesis by simp
qed

theorem C10_disabled_never_calls_witness:
  "\<not> transcription_enabled disabled_init \<and> transcriber disabled_init = None
   \<and> calls (final (main_loop sample_env disabled_init
        (frames (replicate 10 loud @ replicate 20 quiet)))) = calls disabled_init
   \<and> (\<forall>s'. main_loop sample_env disabled_init (frames (replicate 10 loud @ replicate 20 quiet))
          \<noteq> Aborted NullDereference s')"
proof -
  have h: "\<not> transcription_enabled disabled_init" by code_simp
  have n: "transcriber disabled_init = None" by code_simp
  show ?thesis using h n C10_disabled_never_calls[OF h] by simp
qed


end
